theory Spec2Isabelle
  imports Main "HOL-Library.Word" "HOL-Library.Multiset"
begin

unbundle bit_operations_syntax

section \<open>Common types\<close>

type_synonym byte = "8 word"

text \<open>Error values of package tracedb that the modelled functions return.\<close>

datatype error =
    ErrKeyEmpty
  | ErrKeyTooLarge
  | ErrValueTooLarge
  | ErrWriteConflict
  | ErrBatchSeqComplete
  | ErrKeyExpired
  | ErrFull
  | ErrOther string

text \<open>A call either panics (with Go's message) or returns its value.\<close>

datatype 'a outcome = Panic string | Return 'a

section \<open>Internal keys (batch.go)\<close>

definition keyMaxSeq :: "64 word" where
  "keyMaxSeq = push_bit 56 1 - 1"

text \<open>
  \<open>binary.LittleEndian\<close> of the Go standard library: the least significant byte first.
  \<open>le_bytes n v\<close> are the \<open>n\<close> bytes that \<open>PutUint64\<close> (\<open>n = 8\<close>) and \<open>PutUint32\<close>
  (\<open>n = 4\<close>) store; \<open>le_word bs\<close> is the value that \<open>Uint64\<close> and \<open>Uint32\<close> read.
\<close>

fun le_bytes :: "nat \<Rightarrow> 'a::len word \<Rightarrow> byte list" where
  "le_bytes 0 v = []"
| "le_bytes (Suc n) v = ucast v # le_bytes n (drop_bit 8 v)"

fun le_word :: "byte list \<Rightarrow> 'a::len word" where
  "le_word [] = 0"
| "le_word (b # bs) = ucast b OR push_bit 8 (le_word bs)"

text \<open>
  Writing \<open>bs\<close> into the sub-slice of \<open>dst\<close> that starts at \<open>off\<close>. Go panics when the
  slice expression or the store leaves the buffer.
\<close>

definition put_at :: "byte list \<Rightarrow> nat \<Rightarrow> byte list \<Rightarrow> byte list outcome" where
  "put_at dst off bs =
     (if off + length bs \<le> length dst
      then Return (take off dst @ bs @ drop (off + length bs) dst)
      else Panic ''slice bounds out of range'')"

text \<open>Go's builtin \<open>copy(dst, src)\<close>: copies \<open>min (len dst) (len src)\<close> bytes.\<close>

definition copy_bytes :: "byte list \<Rightarrow> byte list \<Rightarrow> byte list" where
  "copy_bytes dst src = take (length dst) src @ drop (length src) dst"

text \<open>
  \<open>makeInternalKey\<close>. The helper \<open>ensureBuffer\<close> is defined outside batch.go and
  is a parameter \<open>eb\<close>: \<open>eb dst n\<close> is the slice it returns for a request of \<open>n\<close> bytes.
\<close>

definition makeInternalKey ::
  "(byte list \<Rightarrow> nat \<Rightarrow> byte list) \<Rightarrow> byte list \<Rightarrow> byte list \<Rightarrow> 64 word \<Rightarrow> bool \<Rightarrow> 32 word
     \<Rightarrow> byte list outcome" where
  "makeInternalKey eb dst ukey seq dFlag expiresAt =
     (if seq > keyMaxSeq then Panic ''tracedb: invalid sequence number''
      else
        let dBit = (if dFlag then 1 else 0 :: 8 word);
            dst1 = eb dst (length ukey + 12);
            dst2 = copy_bytes dst1 ukey
        in case put_at dst2 (length ukey) (le_bytes 8 (push_bit 8 seq OR (ucast dBit :: 64 word))) of
             Panic m \<Rightarrow> Panic m
           | Return dst3 \<Rightarrow> put_at dst3 (length ukey + 8) (le_bytes 4 expiresAt))"

text \<open>
  \<open>parseInternalKey\<close> with its five named results; \<open>logged\<close> is what it hands to
  \<open>logger.Print\<close>. The short-key branch is a bare \<open>return\<close>, so every named result keeps
  its zero value there, \<open>err\<close> included.
\<close>

record parsedKey =
  ukey :: "byte list"
  pk_seq :: "64 word"
  pk_dFlag :: bool
  pk_expiresAt :: "32 word"
  pk_err :: "error option"
  pk_logged :: "string list"

definition parseInternalKey :: "byte list \<Rightarrow> parsedKey" where
  "parseInternalKey ik =
     (if length ik < 12
      then \<lparr>ukey = [], pk_seq = 0, pk_dFlag = False, pk_expiresAt = 0, pk_err = None,
            pk_logged = [''invalid internal key length'']\<rparr>
      else
        let expiresAt' = (le_word (drop (length ik - 4) ik) :: 32 word);
            num = (le_word (take 8 (drop (length ik - 12) ik)) :: 64 word)
        in \<lparr>ukey = take (length ik - 12) ik, pk_seq = drop_bit 8 num,
            pk_dFlag = (num AND 0xff \<noteq> 0), pk_expiresAt = expiresAt', pk_err = None,
            pk_logged = []\<rparr>)"

section \<open>Batches (batch.go)\<close>

definition batchGrowRec :: nat where
  "batchGrowRec = 3000"

record batchIndex =
  delFlag :: bool
  hash :: "32 word"
  keySize :: "16 word"
  valueSize :: "32 word"
  expiresAt :: "32 word"
  kvOffset :: int

definition zeroIndex :: batchIndex where
  "zeroIndex = \<lparr>delFlag = False, hash = 0, keySize = 0, valueSize = 0, expiresAt = 0, kvOffset = 0\<rparr>"

text \<open>
  The staging table \<open>memdb\<close> is declared outside batch.go. The fields that
  batch.go reads are modelled: \<open>activeBatches\<close> (a Go map from a batch's sequence to its
  fingerprint list, kept as an association list with distinct keys), the reference count
  behind \<open>getref\<close>, \<open>nBuckets\<close>, and the bucket table \<open>chains\<close> (for every bucket index the
  bucket followed by its overflow buckets). The data heap and whatever else \<open>put\<close> and
  \<open>split\<close> maintain is the opaque component \<open>heap\<close>.
\<close>

record entry =
  e_hash :: "32 word"
  e_keySize :: "16 word"
  e_valueSize :: "32 word"
  e_expiresAt :: "32 word"
  e_kvOffset :: "64 word"

record bucketHandle =
  entries :: "entry list"
  nxt :: "64 word"

record 'h memdb =
  activeBatches :: "(64 word \<times> 32 word list) list"
  refcount :: int
  nBuckets :: "32 word"
  chains :: "bucketHandle list list"
  heap :: 'h

text \<open>
  A batch. \<open>mem\<close> is the pointer \<open>b.mem\<close>: \<open>None\<close> is \<open>nil\<close>, \<open>Some m\<close> is the memdb it
  points to. \<open>dataCap\<close> is \<open>cap(b.data)\<close>.
\<close>

record 'h Batch =
  managed :: bool
  grouped :: bool
  order :: "32 word"
  seq :: "64 word"
  data :: "byte list"
  dataCap :: nat
  index :: "batchIndex list"
  pendingWrites :: "batchIndex list"
  firstKeyHash :: "32 word"
  keys :: "32 word list"
  mem :: "'h memdb option"
  internalLen :: "32 word"

subsection \<open>Put, PutWithTTL, Delete\<close>

definition grow :: "nat \<Rightarrow> 'h Batch \<Rightarrow> 'h Batch" where
  "grow n b =
     (let off = length (data b) in
      if int (dataCap b) - int off < int n
      then let dv = (if length (index b) > batchGrowRec then length (index b) div batchGrowRec else 1)
           in b\<lparr>dataCap := off + n + off div dv\<rparr>
      else b)"

text \<open>
  The \<open>n\<close> bytes between length and capacity that a re-slice exposes: what the backing
  array held (\<open>stale\<close>), zero where it was never written.
\<close>

definition exposed :: "nat \<Rightarrow> byte list \<Rightarrow> byte list" where
  "exposed n stale = take n (stale @ replicate n 0)"

text \<open>
  \<open>appendRec\<close>. \<open>hashf m\<close> is the method \<open>hash\<close> of the memdb \<open>m\<close>, defined outside
  batch.go; the call \<open>b.mem.hash(key)\<close> goes through the pointer \<open>b.mem\<close>, which \<open>Abort\<close>
  sets to nil, and a nil \<open>b.mem\<close> is taken to panic there. The re-slice \<open>b.data[:o+n]\<close>
  panics beyond the capacity; the \<open>n\<close> bytes it exposes hold whatever the backing array
  held (\<open>stale\<close>) until the stores below overwrite them.
\<close>

definition appendRec ::
  "('h memdb \<Rightarrow> byte list \<Rightarrow> 32 word) \<Rightarrow> byte list \<Rightarrow> bool \<Rightarrow> 32 word \<Rightarrow> byte list
     \<Rightarrow> byte list \<Rightarrow> 'h Batch \<Rightarrow> 'h Batch outcome" where
  "appendRec hashf stale dFlag expAt key val b0 =
     (let n = 1 + length key + (if dFlag then 0 else length val);
          b = grow n b0
      in case mem b of
           None \<Rightarrow> Panic ''invalid memory address or nil pointer dereference''
         | Some m \<Rightarrow>
             (let h = hashf m key;
                  ix = zeroIndex\<lparr>delFlag := dFlag, hash := h, keySize := of_nat (length key)\<rparr>;
                  off = length (data b)
              in if off + n > dataCap b then Panic ''slice bounds out of range''
                 else
                   let d0 = data b @ exposed n stale;
                       d1 = d0[off := (if dFlag then 1 else 0)];
                       off1 = off + 1;
                       ix1 = ix\<lparr>kvOffset := int off1\<rparr>;
                       d2 = take off1 d1 @ copy_bytes (drop off1 d1) key;
                       off2 = off1 + min (length (drop off1 d1)) (length key);
                       ix2 = (if dFlag then ix1 else ix1\<lparr>valueSize := of_nat (length val)\<rparr>);
                       d3 = (if dFlag then d2 else take off2 d2 @ copy_bytes (drop off2 d2) val);
                       off3 = (if dFlag then off2
                               else off2 + min (length (drop off2 d2)) (length val));
                       ix3 = ix2\<lparr>expiresAt := expAt\<rparr>
                   in Return (b\<lparr>data := take off3 d3,
                                 index := index b @ [ix3],
                                 internalLen := internalLen b
                                   + (ucast (keySize ix3) + valueSize ix3 + 8)\<rparr>)))"

text \<open>
  \<open>PutWithTTL\<close>: \<open>later ttl\<close> is \<open>time.Now().Add(ttl).Unix()\<close>, an \<open>int64\<close> that the code
  converts to \<open>uint32\<close>.
\<close>

definition PutWithTTL ::
  "('h memdb \<Rightarrow> byte list \<Rightarrow> 32 word) \<Rightarrow> byte list \<Rightarrow> (64 word \<Rightarrow> 64 word) \<Rightarrow> byte list \<Rightarrow> byte list
     \<Rightarrow> 64 word \<Rightarrow> 'h Batch \<Rightarrow> 'h Batch outcome" where
  "PutWithTTL hashf stale later key val ttl b =
     (let expAt = (if ttl \<noteq> 0 then ucast (later ttl) else 0 :: 32 word)
      in appendRec hashf stale False expAt key val b)"

definition Put ::
  "('h memdb \<Rightarrow> byte list \<Rightarrow> 32 word) \<Rightarrow> byte list \<Rightarrow> (64 word \<Rightarrow> 64 word) \<Rightarrow> byte list \<Rightarrow> byte list
     \<Rightarrow> 'h Batch \<Rightarrow> 'h Batch outcome" where
  "Put hashf stale later key val b = PutWithTTL hashf stale later key val 0 b"

definition Delete ::
  "('h memdb \<Rightarrow> byte list \<Rightarrow> 32 word) \<Rightarrow> byte list \<Rightarrow> byte list \<Rightarrow> 'h Batch \<Rightarrow> 'h Batch outcome" where
  "Delete hashf stale key b = appendRec hashf stale True 0 key [] b"

subsection \<open>uniq\<close>

record indices =
  idx :: nat
  newidx :: nat

text \<open>
  The first loop of \<open>uniq\<close>, from \<open>idx = len(b.index) - 1\<close> down to \<open>0\<close>: the argument
  \<open>Suc k\<close> is the iteration with \<open>idx = k\<close>. The Go map \<open>unique_set\<close> is an association
  list with distinct keys.
\<close>

fun uniq_scan ::
  "batchIndex list \<Rightarrow> nat \<Rightarrow> (32 word \<times> indices) list \<Rightarrow> nat \<Rightarrow> (32 word \<times> indices) list" where
  "uniq_scan ixs 0 unique_set i = unique_set"
| "uniq_scan ixs (Suc k) unique_set i =
     (if map_of unique_set (hash (ixs ! k)) = None
      then uniq_scan ixs k (unique_set @ [(hash (ixs ! k), \<lparr>idx = k, newidx = i\<rparr>)]) (Suc i)
      else uniq_scan ixs k unique_set i)"

text \<open>
  The second loop ranges over the map; its argument is the list of entries in the order
  in which the \<open>range\<close> visits them. An index outside \<open>pendingWrites\<close> or \<open>b.index\<close> panics.
\<close>

fun uniq_fill ::
  "batchIndex list \<Rightarrow> nat \<Rightarrow> (32 word \<times> indices) list \<Rightarrow> 32 word list \<times> batchIndex list
     \<Rightarrow> (32 word list \<times> batchIndex list) outcome" where
  "uniq_fill ixs n [] st = Return st"
| "uniq_fill ixs n ((k, i) # es) (ks, pw) =
     (let pos = int n - int (newidx i) - 1 in
      if pos < 0 \<or> int (length pw) \<le> pos \<or> length ixs \<le> idx i
      then Panic ''index out of range''
      else uniq_fill ixs n es (ks @ [k], pw[nat pos := ixs ! idx i]))"

text \<open>
  \<open>uniq\<close>. Go does not fix the order in which a \<open>range\<close> visits a map: \<open>rng\<close> is that
  order, a rearrangement of the entries.
\<close>

definition uniq ::
  "((32 word \<times> indices) list \<Rightarrow> (32 word \<times> indices) list) \<Rightarrow> 'h Batch \<Rightarrow> 'h Batch outcome" where
  "uniq rng b =
     (let unique_set = uniq_scan (index b) (length (index b)) [] 0;
          n = length unique_set
      in case uniq_fill (index b) n (rng unique_set) (keys b, replicate n zeroIndex) of
           Panic m \<Rightarrow> Panic m
         | Return (ks, pw) \<Rightarrow> Return (b\<lparr>keys := ks, pendingWrites := pw\<rparr>))"

text \<open>
  What the claim about \<open>uniq\<close> describes: the records at the positions that no later
  position repeats the hash of, in ascending order of position.
\<close>

definition lastOccurrences :: "batchIndex list \<Rightarrow> batchIndex list" where
  "lastOccurrences ixs =
     map (\<lambda>p. ixs ! p)
       (filter (\<lambda>p. \<forall>q \<in> set [Suc p..<length ixs]. hash (ixs ! q) \<noteq> hash (ixs ! p))
          [0..<length ixs])"

text \<open>Positions of last occurrences, and the shape of \<open>unique_set\<close> after the first loop.\<close>

definition isLast :: "batchIndex list \<Rightarrow> nat \<Rightarrow> bool" where
  "isLast ixs p = (\<forall>q \<in> set [Suc p..<length ixs]. hash (ixs ! q) \<noteq> hash (ixs ! p))"

definition lastFrom :: "batchIndex list \<Rightarrow> nat \<Rightarrow> nat list" where
  "lastFrom ixs k = filter (isLast ixs) [k..<length ixs]"

definition enc :: "batchIndex list \<Rightarrow> nat list \<Rightarrow> (32 word \<times> indices) list" where
  "enc ixs ps = map (\<lambda>(j, p). (hash (ixs ! p), \<lparr>idx = p, newidx = j\<rparr>)) (enumerate 0 ps)"

definition fill_step ::
  "nat \<Rightarrow> batchIndex list \<Rightarrow> 32 word \<times> indices \<Rightarrow> batchIndex list \<Rightarrow> batchIndex list" where
  "fill_step m ixs e pw = pw[m - 1 - newidx (snd e) := ixs ! idx (snd e)]"

subsection \<open>mput\<close>

text \<open>
  What \<open>mput\<close> uses and batch.go does not define: the limits \<open>MaxKeyLength\<close> and
  \<open>MaxValueLength\<close>, \<open>ensureBuffer\<close>, the memdb's \<open>put\<close> and \<open>split\<close> (each returns its
  error and the memdb it leaves behind), and the load-factor test on the memdb's counters
  (a floating-point comparison in the source).
\<close>

record 'h memops =
  MaxKeyLength :: nat
  MaxValueLength :: nat
  ensureBuffer :: "byte list \<Rightarrow> nat \<Rightarrow> byte list"
  mem_put :: "'h memdb \<Rightarrow> 32 word \<Rightarrow> byte list \<Rightarrow> byte list \<Rightarrow> 32 word \<Rightarrow> error option \<times> 'h memdb"
  mem_overloaded :: "'h memdb \<Rightarrow> bool"
  mem_split :: "'h memdb \<Rightarrow> error option \<times> 'h memdb"

text \<open>The two nested loops of \<open>hasWriteConflict\<close>, each leaving at the first match.\<close>

fun inBatch :: "32 word \<Rightarrow> 32 word list \<Rightarrow> bool" where
  "inBatch h [] = False"
| "inBatch h (k # ks) = (if k = h then True else inBatch h ks)"

fun conflictIn :: "32 word \<Rightarrow> (64 word \<times> 32 word list) list \<Rightarrow> bool" where
  "conflictIn h [] = False"
| "conflictIn h ((s, batch) # rest) = (if inBatch h batch then True else conflictIn h rest)"

definition hasWriteConflict :: "'h Batch \<Rightarrow> 32 word \<Rightarrow> bool outcome" where
  "hasWriteConflict b h =
     (case mem b of
        None \<Rightarrow> Panic ''invalid memory address or nil pointer dereference''
      | Some m \<Rightarrow> Return (conflictIn h (activeBatches m)))"

definition mput ::
  "'h memops \<Rightarrow> bool \<Rightarrow> 32 word \<Rightarrow> 32 word \<Rightarrow> byte list \<Rightarrow> byte list \<Rightarrow> 'h Batch
     \<Rightarrow> (error option \<times> 'h Batch) outcome" where
  "mput ops dFlag h expAt key val b =
     (if length key = 0 then Return (Some ErrKeyEmpty, b)
      else if length key > MaxKeyLength ops then Return (Some ErrKeyTooLarge, b)
      else if length val > MaxValueLength ops then Return (Some ErrValueTooLarge, b)
      else
        case hasWriteConflict b h of
          Panic msg \<Rightarrow> Panic msg
        | Return True \<Rightarrow> Return (Some ErrWriteConflict, b)
        | Return False \<Rightarrow>
            (case makeInternalKey (ensureBuffer ops) [] key (seq b + 1) dFlag expAt of
               Panic msg \<Rightarrow> Panic msg
             | Return k \<Rightarrow>
                 (case mem b of
                    None \<Rightarrow> Panic ''invalid memory address or nil pointer dereference''
                  | Some m \<Rightarrow>
                      (case mem_put ops m h k val expAt of
                         (Some e, m1) \<Rightarrow> Return (Some e, b\<lparr>mem := Some m1\<rparr>)
                       | (None, m1) \<Rightarrow>
                           (case (if mem_overloaded ops m1 then mem_split ops m1 else (None, m1)) of
                              (Some e, m2) \<Rightarrow> Return (Some e, b\<lparr>mem := Some m2\<rparr>)
                            | (None, m2) \<Rightarrow>
                                Return (None,
                                  b\<lparr>mem := Some m2,
                                    firstKeyHash := (if firstKeyHash b = 0 then h else firstKeyHash b),
                                    seq := seq b + 1\<rparr>))))))"

subsection \<open>Commit\<close>

text \<open>
  The durable side: \<open>store\<close> stands for the index file, the data file, the filter and the
  key count, all maintained by code outside batch.go; the two counters are
  \<open>db.metrics.Dels\<close> and \<open>db.metrics.Puts\<close>.
\<close>

record 'd DB =
  store :: 'd
  syncWrites :: bool
  metricsDels :: "64 word"
  metricsPuts :: "64 word"

text \<open>
  The delete path of \<open>commit\<close> after the filter test either leaves the callback with
  \<open>return false, err\<close> (key not found, or an error of the walk or of the bucket write) or
  falls through to the next slot.
\<close>

datatype delResult = DelReturn "error option" | DelDone

text \<open>
  What \<open>commit\<close> calls and batch.go does not define. \<open>db_delete\<close> is the walk over
  the on-disk chain with \<open>del\<close>, \<open>write\<close> and \<open>free\<close>; \<open>db_put\<close> is the walk for a free or
  matching slot, the writes of the key/value and of the buckets, the deferred \<open>free\<close> of
  a replaced value, and \<open>filter.Append\<close>; its
  error is the one the callback returns with \<open>return false, err\<close>.
\<close>

record ('h, 'd) commitops =
  mem_bucketIndex :: "'h memdb \<Rightarrow> 32 word \<Rightarrow> 32 word"
  readKeyValue :: "'h memdb \<Rightarrow> entry \<Rightarrow> byte list \<times> byte list \<times> error option"
  db_hash :: "byte list \<Rightarrow> 32 word"
  filter_Test :: "'d \<Rightarrow> 64 word \<Rightarrow> bool"
  db_delete :: "'d \<Rightarrow> 32 word \<Rightarrow> byte list \<Rightarrow> delResult \<times> 'd"
  db_put :: "'d \<Rightarrow> 32 word \<Rightarrow> byte list \<Rightarrow> byte list \<Rightarrow> 32 word \<Rightarrow> error option \<times> 'd"
  db_sync :: "'d \<Rightarrow> error option"

text \<open>
  What the scan knows of a memdb entry once it has decoded the internal key: user key,
  sequence, delete flag, value and expiry.
\<close>

type_synonym scanned = "byte list \<times> 64 word \<times> bool \<times> byte list \<times> 32 word"

text \<open>
  The variables the callback of \<open>commit\<close> updates. \<open>visited\<close> and \<open>applied\<close> are not in the
  source: \<open>visited\<close> records, in order, every entry whose internal key the scan decodes,
  and \<open>applied\<close> every entry that passes the two sequence tests and so reaches the delete
  or insert path (from \<open>hash := b.db.hash(key)\<close> on).
\<close>

record 'd scanState =
  sdb :: 'd
  delCount :: "64 word"
  putCount :: "64 word"
  visited :: "scanned list"
  applied :: "scanned list"

text \<open>
  The loop over the slots of one memdb bucket: the callback that \<open>commit\<close> hands to
  \<open>forEachBucket\<close>. Its result is the callback's \<open>(bool, error)\<close>. \<open>bseq\<close> is \<open>b.seq\<close> and
  \<open>blen\<close> is \<open>uint64(b.Len())\<close>.
\<close>

fun commitSlots ::
  "('h, 'd) commitops \<Rightarrow> 64 word \<Rightarrow> 64 word \<Rightarrow> 'h memdb \<Rightarrow> bucketHandle \<Rightarrow> entry list
     \<Rightarrow> 'd scanState \<Rightarrow> (bool \<times> error option) \<times> 'd scanState" where
  "commitSlots ops bseq blen m memb [] st = ((False, None), st)"
| "commitSlots ops bseq blen m memb (memsl # rest) st =
     (if e_kvOffset memsl = 0 then ((nxt memb = 0, None), st)
      else
        case readKeyValue ops m memsl of (memslKey, val, err) \<Rightarrow>
          if err = Some ErrKeyExpired then commitSlots ops bseq blen m memb rest st
          else if err \<noteq> None then ((True, err), st)
          else
            let p = parseInternalKey memslKey in
            if pk_err p \<noteq> None then ((True, pk_err p), st)
            else
              let x = (ukey p, pk_seq p, pk_dFlag p, val, pk_expiresAt p);
                  st0 = st\<lparr>visited := visited st @ [x]\<rparr>
              in
              if pk_seq p \<le> bseq - blen then commitSlots ops bseq blen m memb rest st0
              else if pk_seq p > bseq then ((True, Some ErrBatchSeqComplete), st0)
              else
                let h = db_hash ops (ukey p);
                    st1 = st0\<lparr>applied := applied st0 @ [x]\<rparr>
                in
                if pk_dFlag p then
                  if \<not> filter_Test ops (sdb st1) (ucast h) then ((False, None), st1)
                  else
                    let st2 = st1\<lparr>delCount := delCount st1 + 1\<rparr>
                    in (case db_delete ops (sdb st2) h (ukey p) of
                          (DelReturn e, d) \<Rightarrow> ((False, e), st2\<lparr>sdb := d\<rparr>)
                        | (DelDone, d) \<Rightarrow>
                            commitSlots ops bseq blen m memb rest (st2\<lparr>sdb := d\<rparr>))
                else
                  let st2 = st1\<lparr>putCount := putCount st1 + 1\<rparr>
                  in (case db_put ops (sdb st2) h (ukey p) val (pk_expiresAt p) of
                        (Some e, d) \<Rightarrow> ((False, Some e), st2\<lparr>sdb := d\<rparr>)
                      | (None, d) \<Rightarrow>
                          commitSlots ops bseq blen m memb rest (st2\<lparr>sdb := d\<rparr>)))"

text \<open>
  Modelled from the spec: \<open>forEachBucket\<close> of the memdb is not in batch.go. The
  spec has the buckets form a singly-linked chain from the bucket of the index and has the
  scan visit every bucket of the chain: the callback runs on each bucket in turn, and the
  walk ends when the callback asks to stop, when it returns an error (which the walk
  returns), or at the bucket whose \<open>next\<close> is 0.
\<close>

fun forEachBucket ::
  "bucketHandle list \<Rightarrow> (bucketHandle \<Rightarrow> 's \<Rightarrow> (bool \<times> error option) \<times> 's) \<Rightarrow> 's
     \<Rightarrow> error option \<times> 's" where
  "forEachBucket [] cb st = (None, st)"
| "forEachBucket (bk # rest) cb st =
     (case cb bk st of
        ((stop, e), st') \<Rightarrow>
          if stop \<or> e \<noteq> None then (e, st')
          else if nxt bk = 0 then (None, st')
          else forEachBucket rest cb st')"

definition chainAt :: "'h memdb \<Rightarrow> 32 word \<Rightarrow> bucketHandle list" where
  "chainAt m i = (if unat i < length (chains m) then chains m ! unat i else [])"

text \<open>
  The loop \<open>for bucketIdx < b.mem.nBuckets\<close>; the \<open>nat\<close> argument counts the iterations
  left. The result carries the \<open>err\<close> with which the loop is left: \<open>None\<close> when the
  condition fails, \<open>errBatchSeqComplete\<close> at the \<open>break\<close>, any other error at \<open>return err\<close>.
\<close>

fun commitBuckets ::
  "('h, 'd) commitops \<Rightarrow> 64 word \<Rightarrow> 64 word \<Rightarrow> 'h memdb \<Rightarrow> 32 word \<Rightarrow> nat
     \<Rightarrow> 'd scanState \<Rightarrow> error option \<times> 'd scanState" where
  "commitBuckets ops bseq blen m bucketIdx 0 st = (None, st)"
| "commitBuckets ops bseq blen m bucketIdx (Suc n) st =
     (case forEachBucket (chainAt m bucketIdx)
             (\<lambda>memb. commitSlots ops bseq blen m memb (entries memb)) st of
        (err, st') \<Rightarrow>
          if err = Some ErrBatchSeqComplete then (err, st')
          else if err \<noteq> None then (err, st')
          else commitBuckets ops bseq blen m (bucketIdx + 1) n st')"

definition commitScan ::
  "('h, 'd) commitops \<Rightarrow> 'h Batch \<Rightarrow> 'h memdb \<Rightarrow> 'd \<Rightarrow> error option \<times> 'd scanState" where
  "commitScan ops b m d =
     (let bucketIdx = mem_bucketIndex ops m (firstKeyHash b)
      in commitBuckets ops (seq b) (of_nat (length (pendingWrites b))) m bucketIdx
           (unat (nBuckets m) - unat bucketIdx)
           \<lparr>sdb = d, delCount = 0, putCount = 0, visited = [], applied = []\<rparr>)"

text \<open>
  \<open>commit\<close>, called with \<open>b.mem = Some m\<close>. It returns its error, the batch, the database
  and the list \<open>applied\<close> of the scan.
\<close>

definition commit ::
  "('h, 'd) commitops \<Rightarrow> 'h Batch \<Rightarrow> 'h memdb \<Rightarrow> 'd DB
     \<Rightarrow> error option \<times> 'h Batch \<times> 'd DB \<times> scanned list" where
  "commit ops b m db =
     (if length (pendingWrites b) = 0 then (None, b, db, [])
      else
        case commitScan ops b m (store db) of
          (err, st) \<Rightarrow>
            if err \<noteq> None \<and> err \<noteq> Some ErrBatchSeqComplete
            then (err, b, db\<lparr>store := sdb st\<rparr>, applied st)
            else
              let m' = m\<lparr>activeBatches := filter (\<lambda>(s, fp). s \<noteq> seq b) (activeBatches m)\<rparr>;
                  db' = db\<lparr>store := sdb st,
                          metricsDels := metricsDels db + delCount st,
                          metricsPuts := metricsPuts db + putCount st\<rparr>
              in ((if syncWrites db' then db_sync ops (store db') else None),
                  b\<lparr>mem := Some m'\<rparr>, db', applied st))"

definition Commit ::
  "('h, 'd) commitops \<Rightarrow> 'h Batch \<Rightarrow> 'd DB
     \<Rightarrow> (error option \<times> 'h Batch \<times> 'd DB \<times> scanned list) outcome" where
  "Commit ops b db =
     (if managed b then Panic ''assertion failed: managed tx commit not allowed''
      else
        case mem b of
          None \<Rightarrow> Return (None, b, db, [])
        | Some m \<Rightarrow>
            if refcount m = 0 then Return (None, b, db, [])
            else Return (commit ops b m db))"

text \<open>
  The sequences that the claim about the commit scan calls in range, in the \<open>uint64\<close>
  arithmetic of the source: \<open>bseq - blen < s \<le> bseq\<close>.
\<close>

definition inRange :: "64 word \<Rightarrow> 64 word \<Rightarrow> 64 word \<Rightarrow> bool" where
  "inRange bseq blen s = (bseq - blen < s \<and> s \<le> bseq)"

text \<open>
  The sequences at which the scan raises \<open>errBatchSeqComplete\<close>: not skipped, and above
  \<open>b.seq\<close>.
\<close>

definition aboveRange :: "64 word \<Rightarrow> 64 word \<Rightarrow> 64 word \<Rightarrow> bool" where
  "aboveRange bseq blen s = (\<not> s \<le> bseq - blen \<and> bseq < s)"


text \<open>
  What reaching the delete or insert path does to the on-disk index: a delete whose hash
  the filter does not know leaves it alone, any other entry goes through \<open>db_delete\<close> or
  \<open>db_put\<close>.
\<close>

definition applyOp :: "('h, 'd) commitops \<Rightarrow> scanned \<Rightarrow> 'd \<Rightarrow> 'd" where
  "applyOp ops x d =
     (case x of (k, s, dflag, v, e) \<Rightarrow>
        let h = db_hash ops k in
        if dflag then (if filter_Test ops d (ucast h) then snd (db_delete ops d h k) else d)
        else snd (db_put ops d h k v e))"

text \<open>
  How a stretch of the scan that ends with the error \<open>e\<close> relates the state before and
  after: it decodes some entries \<open>vs\<close>, hands exactly those in range to the index, in
  order, decodes nothing after an entry above the range, and ends with the sentinel when
  the last entry it decoded is above the range.
\<close>

definition scanOk ::
  "('h, 'd) commitops \<Rightarrow> 64 word \<Rightarrow> 64 word \<Rightarrow> 'd scanState \<Rightarrow> error option \<Rightarrow> 'd scanState
     \<Rightarrow> bool" where
  "scanOk ops bseq blen st e st' =
     (\<exists>vs. visited st' = visited st @ vs
        \<and> applied st' = applied st @ filter (\<lambda>x. inRange bseq blen (fst (snd x))) vs
        \<and> sdb st' = fold (applyOp ops) (filter (\<lambda>x. inRange bseq blen (fst (snd x))) vs) (sdb st)
        \<and> (\<forall>x \<in> set (butlast vs). \<not> aboveRange bseq blen (fst (snd x)))
        \<and> (vs \<noteq> [] \<and> aboveRange bseq blen (fst (snd (last vs)))
             \<longrightarrow> e = Some ErrBatchSeqComplete))"

subsection \<open>A concrete database for the examples\<close>

text \<open>
  Two batches have written: batch A the keys \<open>[1]\<close> and \<open>[2]\<close> with sequences 1 and 2,
  then batch B the key \<open>[3]\<close> with sequence 3. The memdb has two buckets: bucket 0 holds
  the entries of the keys \<open>[1]\<close> and \<open>[3]\<close>, bucket 1 the entry of \<open>[2]\<close>. An entry's
  \<open>kvOffset\<close> is its sequence here, and \<open>exRead\<close> builds the internal key from it. The
  store of the on-disk index is the list of the keys it holds.
\<close>

definition exSlot :: "64 word \<Rightarrow> entry" where
  "exSlot n = \<lparr>e_hash = ucast n, e_keySize = 13, e_valueSize = 0, e_expiresAt = 0, e_kvOffset = n\<rparr>"

definition exMem :: "unit memdb" where
  "exMem = \<lparr>activeBatches = [(2, [8, 7]), (3, [9])], refcount = 2, nBuckets = 2,
            chains = [[\<lparr>entries = [exSlot 1, exSlot 3], nxt = 0\<rparr>],
                      [\<lparr>entries = [exSlot 2], nxt = 0\<rparr>]],
            heap = ()\<rparr>"

definition exBatch :: "unit Batch" where
  "exBatch = \<lparr>managed = False, grouped = False, order = 0, seq = 2, data = [], dataCap = 0,
              index = [], pendingWrites = [zeroIndex\<lparr>hash := 8\<rparr>, zeroIndex\<lparr>hash := 7\<rparr>],
              firstKeyHash = 8, keys = [8, 7], mem = Some exMem, internalLen = 0\<rparr>"

definition exRead :: "unit memdb \<Rightarrow> entry \<Rightarrow> byte list \<times> byte list \<times> error option" where
  "exRead m e =
     ([ucast (e_kvOffset e)] @ le_bytes 8 (push_bit 8 (e_kvOffset e)) @ le_bytes 4 (0 :: 32 word),
      [], None)"

definition exCommitops :: "(unit, byte list list) commitops" where
  "exCommitops =
     \<lparr>mem_bucketIndex = (\<lambda>m h. h mod nBuckets m),
      readKeyValue = exRead,
      db_hash = (\<lambda>k. 0),
      filter_Test = (\<lambda>d h. True),
      db_delete = (\<lambda>d h k. (DelDone, removeAll k d)),
      db_put = (\<lambda>d h k v e. (None, d @ [k])),
      db_sync = (\<lambda>d. Some (ErrOther ''sync failed''))\<rparr>"

definition exDB :: "byte list list DB" where
  "exDB = \<lparr>store = [], syncWrites = True, metricsDels = 0, metricsPuts = 0\<rparr>"

definition exMemops :: "unit memops" where
  "exMemops =
     \<lparr>MaxKeyLength = 16, MaxValueLength = 16,
      ensureBuffer = (\<lambda>d n. replicate n 0),
      mem_put = (\<lambda>m h k v e. (None, m)),
      mem_overloaded = (\<lambda>m. False),
      mem_split = (\<lambda>m. (None, m))\<rparr>"

section \<open>Write-ahead log (wal/wal.go)\<close>

definition logStatusWritten :: "16 word" where
  "logStatusWritten = 0"

definition logStatusApplied :: "16 word" where
  "logStatusApplied = 1"

record freeBlock =
  fb_offset :: "64 word"
  fb_size :: "64 word"
  currOffset :: "64 word"
  currSize :: "64 word"

text \<open>
  \<open>logInfo\<close> is declared outside wal.go; these are the fields wal.go uses.
  The width of \<open>status\<close> is not visible there and plays no role.
\<close>

record logInfo =
  log_status :: "16 word"
  entryCount :: "32 word"
  log_seq :: "64 word"
  upperSeq :: "64 word"
  log_size :: "64 word"
  log_offset :: "64 word"

text \<open>
  The log of a \<open>WAL\<close>: the descriptor list, the counter behind \<open>Count\<close> and \<open>incount\<close>
  (an \<open>int64\<close> that counts list entries, kept as an integer), and the free-block zones
  \<open>wal.logFile.fb\<close>.
\<close>

record WAL =
  logs :: "logInfo list"
  count_wal :: int
  fb :: freeBlock

text \<open>
  What wal.go calls and does not define: \<open>logHeaderSize\<close>, \<open>align\<close>, the order that
  \<open>sort.Slice\<close> produces, and the result of \<open>wal.logFile.Sync()\<close>.
\<close>

record walops =
  logHeaderSize :: "64 word"
  align :: "64 word \<Rightarrow> 64 word"
  sortSlice :: "logInfo list \<Rightarrow> logInfo list"
  file_Sync :: "WAL \<Rightarrow> error option"

subsection \<open>put, Scan\<close>

text \<open>The loop of \<open>put\<close> over \<open>i = 0 .. l - 1\<close>; \<open>Suc n\<close> iterations are left at index \<open>i\<close>.\<close>

fun put_loop :: "logInfo \<Rightarrow> logInfo list \<Rightarrow> nat \<Rightarrow> nat \<Rightarrow> (logInfo list) option outcome" where
  "put_loop lg ls i 0 = Return None"
| "put_loop lg ls i (Suc n) =
     (if length ls \<le> i then Panic ''index out of range''
      else if log_offset (ls ! i) = log_offset lg
      then Return (Some (ls[i := (ls ! i)\<lparr>log_status := log_status lg, entryCount := entryCount lg,
                                        log_seq := log_seq lg, upperSeq := upperSeq lg,
                                        log_size := log_size lg\<rparr>]))
      else put_loop lg ls (Suc i) n)"

definition put :: "logInfo \<Rightarrow> WAL \<Rightarrow> WAL outcome" where
  "put lg w =
     (case put_loop lg (logs w) 0 (nat (count_wal w)) of
        Panic msg \<Rightarrow> Panic msg
      | Return (Some ls) \<Rightarrow> Return (w\<lparr>logs := ls\<rparr>)
      | Return None \<Rightarrow> Return (w\<lparr>count_wal := count_wal w + 1, logs := logs w @ [lg]\<rparr>))"

fun scan_loop ::
  "logInfo list \<Rightarrow> nat \<Rightarrow> nat \<Rightarrow> 64 word list \<times> 64 word list
     \<Rightarrow> (64 word list \<times> 64 word list) outcome" where
  "scan_loop ls i 0 acc = Return acc"
| "scan_loop ls i (Suc n) (logSeqs, upperSeqs) =
     (if length ls \<le> i then Panic ''index out of range''
      else if log_status (ls ! i) = logStatusWritten
      then scan_loop ls (Suc i) n (logSeqs @ [log_seq (ls ! i)], upperSeqs @ [upperSeq (ls ! i)])
      else scan_loop ls (Suc i) n (logSeqs, upperSeqs))"

definition Scan :: "WAL \<Rightarrow> (64 word list \<times> 64 word list \<times> error option) outcome" where
  "Scan w =
     (case scan_loop (logs w) 0 (nat (count_wal w)) ([], []) of
        Panic msg \<Rightarrow> Panic msg
      | Return (logSeqs, upperSeqs) \<Rightarrow> Return (logSeqs, upperSeqs, None))"

subsection \<open>logMerge, SignalLogApplied\<close>

text \<open>The body of the loop of \<open>logMerge\<close> for a log whose status is applied.\<close>

definition mergeLog :: "walops \<Rightarrow> logInfo \<Rightarrow> freeBlock \<Rightarrow> freeBlock" where
  "mergeLog ops lg f =
     (if currOffset f + currSize f = log_offset lg
      then f\<lparr>currSize := currSize f + align ops (log_size lg + logHeaderSize ops)\<rparr>
      else
        let f1 = (if fb_offset f + fb_size f = log_offset lg
                  then f\<lparr>fb_size := fb_size f + align ops (log_size lg + logHeaderSize ops)\<rparr>
                  else f)
        in if fb_size f1 \<noteq> 0 \<and> currOffset f1 \<le>s fb_offset f1 + fb_size f1
           then f1\<lparr>currOffset := fb_offset f1,
                   currSize := currSize f1 + align ops (fb_size f1),
                   fb_size := 0\<rparr>
           else f1)"

definition mergeIfApplied :: "walops \<Rightarrow> logInfo \<Rightarrow> freeBlock \<Rightarrow> freeBlock" where
  "mergeIfApplied ops lg f = (if log_status lg \<noteq> logStatusApplied then f else mergeLog ops lg f)"

text \<open>
  \<open>logMerge\<close>: the loop from \<open>idx\<close> to the end of the list, then \<open>writeHeader\<close> (whose
  error the code drops) and the result of \<open>wal.Sync()\<close>.
\<close>

definition logMerge :: "walops \<Rightarrow> nat \<Rightarrow> WAL \<Rightarrow> error option \<times> WAL" where
  "logMerge ops i w =
     (let w' = w\<lparr>fb := fold (mergeIfApplied ops) (drop i (logs w)) (fb w)\<rparr>
      in (file_Sync ops w', w'))"

text \<open>The loop of \<open>SignalLogApplied\<close> over the sorted list; \<open>Suc n\<close> iterations are left at \<open>i\<close>.\<close>

fun signal_loop :: "walops \<Rightarrow> 64 word \<Rightarrow> nat \<Rightarrow> nat \<Rightarrow> WAL \<Rightarrow> error option \<times> WAL" where
  "signal_loop ops u i 0 w = (None, w)"
| "signal_loop ops u i (Suc n) w =
     (if log_status (logs w ! i) = logStatusWritten \<and> upperSeq (logs w ! i) \<le> u
      then
        let w1 = w\<lparr>logs := (logs w)[i := (logs w ! i)\<lparr>log_status := logStatusApplied\<rparr>]\<rparr>
        in (case logMerge ops i w1 of
              (Some e, w2) \<Rightarrow> (Some e, w2)
            | (None, w2) \<Rightarrow> signal_loop ops u (Suc i) n w2)
      else signal_loop ops u (Suc i) n w)"

definition SignalLogApplied :: "walops \<Rightarrow> 64 word \<Rightarrow> WAL \<Rightarrow> error option \<times> WAL" where
  "SignalLogApplied ops u w =
     (let w0 = w\<lparr>logs := sortSlice ops (logs w)\<rparr>
      in signal_loop ops u 0 (length (logs w0)) w0)"

text \<open>
  The states of the log that the code of wal.go produces: the empty log of \<open>newWal\<close>, a
  written descriptor appended by \<open>recoverLogHeaders\<close> (together with \<open>incount\<close>), \<open>put\<close>,
  and \<open>SignalLogApplied\<close>.
\<close>

inductive wal_reach :: "walops \<Rightarrow> WAL \<Rightarrow> bool" for ops :: walops where
  reach_new: "wal_reach ops \<lparr>logs = [], count_wal = 0, fb = f\<rparr>"
| reach_recover:
    "wal_reach ops w \<Longrightarrow> log_status lg = logStatusWritten \<Longrightarrow>
       wal_reach ops (w\<lparr>count_wal := count_wal w + 1, logs := logs w @ [lg]\<rparr>)"
| reach_put: "wal_reach ops w \<Longrightarrow> put lg w = Return w' \<Longrightarrow> wal_reach ops w'"
| reach_signal:
    "wal_reach ops w \<Longrightarrow> mset (sortSlice ops (logs w)) = mset (logs w) \<Longrightarrow>
       SignalLogApplied ops u w = (e, w') \<Longrightarrow> wal_reach ops w'"
| reach_fb: "wal_reach ops w \<Longrightarrow> wal_reach ops (w\<lparr>fb := f\<rparr>)"

text \<open>What the claims about the log say, in their words.\<close>

definition isWritten :: "logInfo \<Rightarrow> bool" where
  "isWritten lg = (log_status lg = logStatusWritten)"



text \<open>
  The extent of a log on disk, and a run of logs that lie one behind the other from
  position \<open>p\<close> on.
\<close>

definition extent :: "walops \<Rightarrow> logInfo \<Rightarrow> 64 word" where
  "extent ops lg = align ops (log_size lg + logHeaderSize ops)"




subsection \<open>A concrete log for the examples\<close>

definition exLog :: "16 word \<Rightarrow> 64 word \<Rightarrow> 64 word \<Rightarrow> logInfo" where
  "exLog st sq off =
     \<lparr>log_status = st, entryCount = 1, log_seq = sq, upperSeq = sq + 1, log_size = 8,
      log_offset = off\<rparr>"

definition exWalops :: walops where
  "exWalops =
     \<lparr>logHeaderSize = 8, align = (\<lambda>n. n),
      sortSlice = sort_key (\<lambda>l. sint (log_offset l)),
      file_Sync = (\<lambda>w. None)\<rparr>"

definition exFb :: freeBlock where
  "exFb = \<lparr>fb_offset = 0, fb_size = 0, currOffset = 16, currSize = 0\<rparr>"

definition exWAL :: WAL where
  "exWAL =
     \<lparr>logs = [exLog logStatusWritten 5 48, exLog logStatusApplied 3 16,
              exLog logStatusWritten 1 32],
      count_wal = 3, fb = exFb\<rparr>"


section \<open>Properties of the internal key codec\<close>


lemma le_word_le_bytes: "(le_word (le_bytes n (v::'a::len word)) :: 'a word) = take_bit (8 * n) v"
proof (induction n arbitrary: v)
  case 0 show ?case by simp
next
  case (Suc n)
  show ?case
    apply (simp add: Suc)
    apply (rule bit_eqI)
    apply (auto simp add: bit_simps)
    done
qed

lemma length_le_bytes [simp]: "length (le_bytes n v) = n"
  by (induction n arbitrary: v) auto

lemma le_word_le_bytes64 [simp]: "le_word (le_bytes 8 (v :: 64 word)) = v"
  by (simp only: le_word_le_bytes) (simp add: take_bit_word_eq_self)

lemma le_word_le_bytes32 [simp]: "le_word (le_bytes 4 (v :: 32 word)) = v"
  by (simp only: le_word_le_bytes) (simp add: take_bit_word_eq_self)

lemma keyMaxSeq_take: "s \<le> keyMaxSeq \<Longrightarrow> take_bit 56 s = s" for s :: "64 word"
proof -
  assume "s \<le> keyMaxSeq"
  then have "s < 2 ^ 56" by (simp add: keyMaxSeq_def word_le_nat_alt word_less_nat_alt)
  then have "s AND mask 56 = s" by (rule less_mask_eq)
  then show ?thesis by (simp add: take_bit_eq_mask)
qed

lemma keyMaxSeq_unat: "unat keyMaxSeq = 2 ^ 56 - 1"
  by (simp add: keyMaxSeq_def)

lemma drop_pack: "drop_bit 8 (push_bit 8 s OR (ucast (d :: 8 word) :: 64 word)) = take_bit 56 s" for s :: "64 word"
  apply (rule bit_eqI)
  apply (auto simp add: bit_simps dest: bit_imp_le_length)
  done

lemma and_pack: "(push_bit 8 s OR (ucast (d :: 8 word) :: 64 word)) AND 0xff = ucast d" for s :: "64 word"
proof -
  have m: "(0xff :: 64 word) = mask 8" by (simp add: mask_eq_exp_minus_1)
  show ?thesis
    unfolding m
    apply (rule bit_eqI)
    apply (auto simp add: bit_simps dest: bit_imp_le_length)
    done
qed

lemma makeInternalKey_layout:
  assumes "s \<le> keyMaxSeq" and "length (eb dst (length k + 12)) = length k + 12"
  shows "makeInternalKey eb dst k s d e =
           Return (k @ le_bytes 8 (push_bit 8 s OR (if d then 1 else 0)) @ le_bytes 4 e)"
  using assms
  by (cases d) (simp_all add: makeInternalKey_def Let_def put_at_def copy_bytes_def not_less [symmetric])

lemma parse_layout:
  assumes "s \<le> keyMaxSeq"
  shows "parseInternalKey (k @ le_bytes 8 (push_bit 8 s OR (if d then 1 else 0)) @ le_bytes 4 e) =
     \<lparr>ukey = k, pk_seq = s, pk_dFlag = d, pk_expiresAt = e, pk_err = None, pk_logged = []\<rparr>"
proof -
  have a0: "drop_bit 8 (push_bit 8 s) = s" and a1: "drop_bit 8 (push_bit 8 s OR 1) = s"
    using drop_pack [of s 0] drop_pack [of s 1] keyMaxSeq_take [OF assms] by simp_all
  have b0: "push_bit 8 s AND 0xff = 0" and b1: "(push_bit 8 s OR 1) AND 0xff = 1"
    using and_pack [of s 0] and_pack [of s 1] by simp_all
  show ?thesis
    by (cases d) (simp_all add: parseInternalKey_def Let_def a0 a1 b0 b1 del: le_bytes.simps le_word.simps)
qed

text \<open>
  Claim C4. For every user key, every sequence up to \<open>keyMaxSeq\<close>, every delete flag and
  every expiry, \<open>makeInternalKey\<close> returns a key of \<open>len(ukey) + 12\<close> bytes: the user key,
  then the eight little-endian bytes of \<open>(seq << 8) | delete_bit\<close>, then the four
  little-endian bytes of the expiry; and \<open>parseInternalKey\<close> of that key gives back the
  user key, the sequence, the flag and the expiry, with a nil error. \<open>ensureBuffer\<close> is
  taken to return a slice of the length asked for.
\<close>

theorem internalKey_roundtrip:
  assumes "s \<le> keyMaxSeq" and "length (eb dst (length k + 12)) = length k + 12"
  shows "\<exists>ik. makeInternalKey eb dst k s d e = Return ik
           \<and> length ik = length k + 12
           \<and> ik = k @ le_bytes 8 (push_bit 8 s OR (if d then 1 else 0)) @ le_bytes 4 e
           \<and> parseInternalKey ik =
               \<lparr>ukey = k, pk_seq = s, pk_dFlag = d, pk_expiresAt = e, pk_err = None, pk_logged = []\<rparr>"
  using makeInternalKey_layout [of s eb dst k d e] parse_layout [of s k d e] assms by simp

theorem internalKey_roundtrip_witness:
  "(5 :: 64 word) \<le> keyMaxSeq
   \<and> makeInternalKey (\<lambda>d n. replicate n 0) [] [1, 2, 3] 5 True 7 =
       Return [1, 2, 3, 1, 5, 0, 0, 0, 0, 0, 0, 7, 0, 0, 0]
   \<and> parseInternalKey [1, 2, 3, 1, 5, 0, 0, 0, 0, 0, 0, 7, 0, 0, 0] =
       \<lparr>ukey = [1, 2, 3], pk_seq = 5, pk_dFlag = True, pk_expiresAt = 7, pk_err = None, pk_logged = []\<rparr>"
proof -
  have h: "(5 :: 64 word) \<le> keyMaxSeq" by (simp add: keyMaxSeq_def)
  have l: "length ((\<lambda>d n. replicate n (0::byte)) [] (length [1, 2, 3 :: byte] + 12)) = length [1, 2, 3 :: byte] + 12"
    by simp
  have e8: "le_bytes 8 (1281 :: 64 word) = [1, 5, 0, 0, 0, 0, 0, 0]" by code_simp
  have e4: "le_bytes 4 (7 :: 32 word) = [7, 0, 0, 0]" by code_simp
  have p: "push_bit 8 (5 :: 64 word) OR 1 = 1281" by simp
  show ?thesis
    using h l internalKey_roundtrip [of 5 "\<lambda>d n. replicate n 0" "[]" "[1, 2, 3]" True 7]
    by (simp add: p e8 e4 del: le_bytes.simps)
qed

text \<open>
  Claim C8. \<open>makeInternalKey\<close> panics exactly when the sequence exceeds
  \<open>keyMaxSeq = 2^56 - 1\<close>, and returns normally exactly when it does not. \<open>ensureBuffer\<close>
  is taken to return a slice of the length asked for.
\<close>

theorem makeInternalKey_panic_iff:
  assumes "length (eb dst (length k + 12)) = length k + 12"
  shows "((\<exists>m. makeInternalKey eb dst k s d e = Panic m) \<longleftrightarrow> 2 ^ 56 - 1 < unat s)
       \<and> ((\<exists>ik. makeInternalKey eb dst k s d e = Return ik) \<longleftrightarrow> unat s \<le> 2 ^ 56 - 1)"
proof (cases "s \<le> keyMaxSeq")
  case True
  then have "unat s \<le> 2 ^ 56 - 1" by (simp add: word_le_nat_alt keyMaxSeq_unat)
  with makeInternalKey_layout [of s eb dst k d e] True assms show ?thesis by simp
next
  case False
  then have "2 ^ 56 - 1 < unat s" by (simp add: word_le_nat_alt keyMaxSeq_unat)
  with False show ?thesis by (simp add: makeInternalKey_def not_le)
qed

theorem makeInternalKey_panic_iff_witness:
  "length ((\<lambda>d n. replicate n (0::byte)) [] (length [1 :: byte] + 12)) = length [1 :: byte] + 12
   \<and> makeInternalKey (\<lambda>d n. replicate n 0) [] [1] (2 ^ 56) False 0
       = Panic ''tracedb: invalid sequence number''
   \<and> (\<exists>ik. makeInternalKey (\<lambda>d n. replicate n 0) [] [1] (2 ^ 56 - 1) False 0 = Return ik)"
proof -
  have l: "length ((\<lambda>d n. replicate n (0::byte)) [] (length [1 :: byte] + 12)) = length [1 :: byte] + 12"
    by simp
  have u: "unat (2 ^ 56 - 1 :: 64 word) \<le> 2 ^ 56 - 1" by simp
  have g: "keyMaxSeq < (2 ^ 56 :: 64 word)" by (simp add: keyMaxSeq_def)
  from makeInternalKey_panic_iff [of "\<lambda>d n. replicate n 0" "[]" "[1]" "2 ^ 56 - 1" False 0, OF l] u
  have "\<exists>ik. makeInternalKey (\<lambda>d n. replicate n 0) [] [1] (2 ^ 56 - 1) False 0 = Return ik"
    by blast
  moreover have "makeInternalKey (\<lambda>d n. replicate n 0) [] [1] (2 ^ 56) False 0
       = Panic ''tracedb: invalid sequence number''"
    using g by (simp add: makeInternalKey_def)
  ultimately show ?thesis using l by blast
qed

text \<open>
  Claim C7, as the code has it. For a slice shorter than 12 bytes \<open>parseInternalKey\<close> logs
  the message and returns the zero value of every result, the error included: the error
  it hands to its caller is nil.
\<close>

theorem parseInternalKey_short:
  "length ik < 12 \<Longrightarrow>
     parseInternalKey ik = \<lparr>ukey = [], pk_seq = 0, pk_dFlag = False, pk_expiresAt = 0, pk_err = None,
                            pk_logged = [''invalid internal key length'']\<rparr>"
  by (simp add: parseInternalKey_def)

theorem parseInternalKey_short_witness:
  "length ([9] :: byte list) < 12
   \<and> parseInternalKey [9] = \<lparr>ukey = [], pk_seq = 0, pk_dFlag = False, pk_expiresAt = 0,
                              pk_err = None, pk_logged = [''invalid internal key length'']\<rparr>"
  using parseInternalKey_short [of "[9]"] by simp

text \<open>
  Claim C7 as stated fails: on the three-byte slice below no error reaches the caller.
\<close>

theorem parseInternalKey_short_counterexample:
  "length ([1, 2, 3] :: byte list) < 12 \<and> pk_err (parseInternalKey [1, 2, 3]) = None"
  by (simp add: parseInternalKey_def)

section \<open>Properties of uniq\<close>


lemma lastOccurrences_alt: "lastOccurrences ixs = map (\<lambda>p. ixs ! p) (lastFrom ixs 0)"
  by (simp add: lastOccurrences_def lastFrom_def isLast_def [abs_def])

lemma enc_snoc: "enc ixs (ps @ [p]) = enc ixs ps @ [(hash (ixs ! p), \<lparr>idx = p, newidx = length ps\<rparr>)]"
  by (simp add: enc_def enumerate_append_eq)

lemma fst_set_enc: "fst ` set (enc ixs ps) = (\<lambda>p. hash (ixs ! p)) ` set ps"
proof -
  have "map fst (enc ixs ps) = map (\<lambda>p. hash (ixs ! p)) (map snd (enumerate 0 ps))"
    by (simp add: enc_def case_prod_beta comp_def del: map_snd_enumerate)
  then have "map fst (enc ixs ps) = map (\<lambda>p. hash (ixs ! p)) ps" by simp
  then have "set (map fst (enc ixs ps)) = set (map (\<lambda>p. hash (ixs ! p)) ps)" by simp
  then show ?thesis by simp
qed

lemma lastFrom_step:
  "k < length ixs \<Longrightarrow>
     lastFrom ixs k = (if isLast ixs k then k # lastFrom ixs (Suc k) else lastFrom ixs (Suc k))"
  by (simp add: lastFrom_def upt_conv_Cons)

lemma lastFrom_end: "lastFrom ixs (length ixs) = []"
  by (simp add: lastFrom_def)

text \<open>Every hash at or after position k has its last occurrence at or after k.\<close>
lemma hash_has_last:
  assumes "k \<le> q" "q < length ixs"
  shows "\<exists>p \<in> set (lastFrom ixs k). hash (ixs ! p) = hash (ixs ! q)"
proof -
  let ?S = "{r. r < length ixs \<and> hash (ixs ! r) = hash (ixs ! q)}"
  have fin: "finite ?S" by simp
  have ne: "q \<in> ?S" using assms by simp
  define p where "p = Max ?S"
  have "?S \<noteq> {}" using ne by blast
  with fin have "Max ?S \<in> ?S" by (rule Max_in)
  then have pin: "p \<in> ?S" by (simp only: p_def)
  have pmax: "r \<le> p" if "r \<in> ?S" for r
    unfolding p_def using fin that by (rule Max_ge)
  have "q \<le> p" using pmax ne by blast
  have "isLast ixs p"
    unfolding isLast_def
  proof
    fix r assume "r \<in> set [Suc p..<length ixs]"
    then have r: "p < r" "r < length ixs" by auto
    show "hash (ixs ! r) \<noteq> hash (ixs ! p)"
    proof
      assume "hash (ixs ! r) = hash (ixs ! p)"
      with pin r have "r \<in> ?S" by simp
      with pmax have "r \<le> p" by blast
      with r show False by simp
    qed
  qed
  moreover have "k \<le> p" "p < length ixs" using \<open>q \<le> p\<close> assms pin by auto
  ultimately have "p \<in> set (lastFrom ixs k)" by (simp add: lastFrom_def)
  with pin show ?thesis by blast
qed

lemma isLast_iff_fresh:
  assumes "k < length ixs"
  shows "isLast ixs k \<longleftrightarrow> hash (ixs ! k) \<notin> (\<lambda>p. hash (ixs ! p)) ` set (lastFrom ixs (Suc k))"
proof
  assume l: "isLast ixs k"
  show "hash (ixs ! k) \<notin> (\<lambda>p. hash (ixs ! p)) ` set (lastFrom ixs (Suc k))"
  proof
    assume "hash (ixs ! k) \<in> (\<lambda>p. hash (ixs ! p)) ` set (lastFrom ixs (Suc k))"
    then obtain p where "p \<in> set (lastFrom ixs (Suc k))" "hash (ixs ! p) = hash (ixs ! k)" by force
    then have "p \<in> set [Suc k..<length ixs]" "hash (ixs ! p) = hash (ixs ! k)"
      by (simp_all add: lastFrom_def)
    with l show False unfolding isLast_def by blast
  qed
next
  assume f: "hash (ixs ! k) \<notin> (\<lambda>p. hash (ixs ! p)) ` set (lastFrom ixs (Suc k))"
  show "isLast ixs k"
    unfolding isLast_def
  proof
    fix q assume "q \<in> set [Suc k..<length ixs]"
    then have "Suc k \<le> q" "q < length ixs" by auto
    from hash_has_last [OF this] obtain p where
      "p \<in> set (lastFrom ixs (Suc k))" "hash (ixs ! p) = hash (ixs ! q)" by blast
    with f show "hash (ixs ! q) \<noteq> hash (ixs ! k)" by (metis image_eqI)
  qed
qed

lemma uniq_scan_inv:
  "k \<le> length ixs \<Longrightarrow>
     uniq_scan ixs k (enc ixs (rev (lastFrom ixs k))) (length (lastFrom ixs k))
       = enc ixs (rev (lastFrom ixs 0))"
proof (induction k)
  case 0
  show ?case by simp
next
  case (Suc k)
  then have k: "k < length ixs" by simp
  have fresh: "(map_of (enc ixs (rev (lastFrom ixs (Suc k)))) (hash (ixs ! k)) = None)
                 = isLast ixs k"
    by (simp add: map_of_eq_None_iff fst_set_enc isLast_iff_fresh [OF k])
  show ?case
  proof (cases "isLast ixs k")
    case True
    then have "lastFrom ixs k = k # lastFrom ixs (Suc k)" using lastFrom_step [OF k] by simp
    with Suc.IH k True show ?thesis by (simp add: enc_snoc fresh)
  next
    case False
    then have "lastFrom ixs k = lastFrom ixs (Suc k)" using lastFrom_step [OF k] by simp
    with Suc.IH k False show ?thesis by (simp add: fresh)
  qed
qed

lemma uniq_scan_result:
  "uniq_scan ixs (length ixs) [] 0 = enc ixs (rev (lastFrom ixs 0))"
  using uniq_scan_inv [of "length ixs" ixs] by (simp add: lastFrom_end enc_def)


lemma fold_fill_length [simp]: "length (fold (fill_step m ixs) es pw) = length pw"
  by (induction es arbitrary: pw) (auto simp: fill_step_def)

lemma fold_fill_other:
  "q \<notin> (\<lambda>e. m - 1 - newidx (snd e)) ` set es \<Longrightarrow> fold (fill_step m ixs) es pw ! q = pw ! q"
  by (induction es arbitrary: pw) (auto simp: fill_step_def)

lemma fold_fill_nth:
  assumes "distinct (map (\<lambda>e. newidx (snd e)) es)" "\<forall>e \<in> set es. newidx (snd e) < m"
    and "e \<in> set es" "length pw = m"
  shows "fold (fill_step m ixs) es pw ! (m - 1 - newidx (snd e)) = ixs ! idx (snd e)"
  using assms
proof (induction es arbitrary: pw)
  case Nil
  then show ?case by simp
next
  case (Cons a es)
  show ?case
  proof (cases "e \<in> set es")
    case True
    with Cons.prems have "fold (fill_step m ixs) es (fill_step m ixs a pw) ! (m - 1 - newidx (snd e))
        = ixs ! idx (snd e)"
      by (intro Cons.IH) (simp_all add: fill_step_def)
    then show ?thesis by simp
  next
    case False
    with Cons.prems have ea: "e = a" by simp
    have "m - 1 - newidx (snd a) \<notin> (\<lambda>e. m - 1 - newidx (snd e)) ` set es"
    proof
      assume "m - 1 - newidx (snd a) \<in> (\<lambda>e. m - 1 - newidx (snd e)) ` set es"
      then obtain e' where e': "e' \<in> set es" "m - 1 - newidx (snd a) = m - 1 - newidx (snd e')" by auto
      with Cons.prems(2) have "newidx (snd a) < m" "newidx (snd e') < m" by auto
      with e' have "newidx (snd a) = newidx (snd e')" by arith
      with e' Cons.prems(1) show False by force
    qed
    then have "fold (fill_step m ixs) es (fill_step m ixs a pw) ! (m - 1 - newidx (snd a))
               = fill_step m ixs a pw ! (m - 1 - newidx (snd a))"
      by (rule fold_fill_other)
    moreover have "m - 1 - newidx (snd a) < length pw" using Cons.prems by simp
    then have "fill_step m ixs a pw ! (m - 1 - newidx (snd a)) = ixs ! idx (snd a)"
      by (simp add: fill_step_def)
    ultimately show ?thesis
      by (simp add: ea)
  qed
qed

lemma uniq_fill_fold:
  assumes "\<forall>e \<in> set es. newidx (snd e) < m \<and> idx (snd e) < length ixs" "length pw = m"
  shows "uniq_fill ixs m es (ks, pw) = Return (ks @ map fst es, fold (fill_step m ixs) es pw)"
  using assms
proof (induction es arbitrary: ks pw)
  case Nil
  then show ?case by simp
next
  case (Cons a es)
  obtain k i where a: "a = (k, i)" by (cases a)
  from Cons.prems a have b: "newidx i < m" "idx i < length ixs" by auto
  then have pos: "nat (int m - int (newidx i) - 1) = m - 1 - newidx i" by arith
  have st: "fill_step m ixs (k, i) pw = pw[m - 1 - newidx i := ixs ! idx i]"
    by (simp add: fill_step_def)
  from b Cons.prems show ?case
    by (simp add: a Let_def pos Cons.IH st del: One_nat_def)
qed

lemma set_enc_bounds:
  assumes "set ps \<subseteq> {..<length ixs}" "e \<in> set (enc ixs ps)"
  shows "newidx (snd e) < length ps \<and> idx (snd e) < length ixs"
proof -
  from assms(2) obtain j p where "(j, p) \<in> set (enumerate 0 ps)"
      "e = (hash (ixs ! p), \<lparr>idx = p, newidx = j\<rparr>)"
    by (auto simp: enc_def)
  then have "j < length ps" "p \<in> set ps" "snd e = \<lparr>idx = p, newidx = j\<rparr>"
    by (auto simp: in_set_enumerate_eq)
  with assms(1) show ?thesis by auto
qed

lemma enc_nth:
  "j < length ps \<Longrightarrow> enc ixs ps ! j = (hash (ixs ! (ps ! j)), \<lparr>idx = ps ! j, newidx = j\<rparr>)"
  by (simp add: enc_def nth_enumerate_eq)

lemma newidx_enc: "map (\<lambda>e. newidx (snd e)) (enc ixs ps) = [0..<length ps]"
  by (rule nth_equalityI) (simp_all add: enc_def nth_enumerate_eq)

lemma length_enc [simp]: "length (enc ixs ps) = length ps"
  by (simp add: enc_def)

lemma uniq_fill_enc:
  assumes perm: "mset es = mset (enc ixs ps)" and ps: "set ps \<subseteq> {..<length ixs}"
  shows "uniq_fill ixs (length ps) es (ks, replicate (length ps) z) =
           Return (ks @ map fst es, map (\<lambda>p. ixs ! p) (rev ps))"
proof -
  let ?m = "length ps"
  let ?F = "fold (fill_step ?m ixs) es (replicate ?m z)"
  have seteq: "set es = set (enc ixs ps)" using perm by (rule mset_eq_setD)
  have bounds: "\<forall>e \<in> set es. newidx (snd e) < ?m \<and> idx (snd e) < length ixs"
    using set_enc_bounds [OF ps] seteq by blast
  have "mset (map (\<lambda>e. newidx (snd e)) es) = mset (map (\<lambda>e. newidx (snd e)) (enc ixs ps))"
    using perm by simp
  then have "mset (map (\<lambda>e. newidx (snd e)) es) = mset [0..<?m]" by (simp only: newidx_enc)
  then have "distinct (map (\<lambda>e. newidx (snd e)) es) = distinct [0..<?m]"
    by (rule mset_eq_imp_distinct_iff)
  then have dist: "distinct (map (\<lambda>e. newidx (snd e)) es)" by simp
  have "?F = map (\<lambda>p. ixs ! p) (rev ps)"
  proof (rule nth_equalityI)
    show "length ?F = length (map (\<lambda>p. ixs ! p) (rev ps))" by simp
  next
    fix q assume "q < length ?F"
    then have q: "q < ?m" by simp
    define j where "j = ?m - 1 - q"
    have j: "j < ?m" "q = ?m - 1 - j" using q by (simp_all add: j_def)
    define e where "e = enc ixs ps ! j"
    have ein: "e \<in> set es" unfolding e_def seteq using j by simp
    have e: "snd e = \<lparr>idx = ps ! j, newidx = j\<rparr>" unfolding e_def using j by (simp add: enc_nth)
    have "?F ! (?m - 1 - newidx (snd e)) = ixs ! idx (snd e)"
      using dist bounds ein by (intro fold_fill_nth) simp_all
    then have "?F ! q = ixs ! (ps ! j)" using e j by simp
    also have "ps ! j = rev ps ! q"
    proof -
      have "rev ps ! q = ps ! (length ps - Suc q)" using q by (rule rev_nth)
      then show ?thesis by (simp add: j_def)
    qed
    finally show "?F ! q = map (\<lambda>p. ixs ! p) (rev ps) ! q" using q by simp
  qed
  with uniq_fill_fold [OF bounds, of "replicate ?m z" ks] show ?thesis by simp
qed

lemma distinct_hash_lastOccurrences: "distinct (map hash (lastOccurrences ixs))"
proof -
  have "inj_on (\<lambda>p. hash (ixs ! p)) (set (lastFrom ixs 0))"
  proof (rule inj_onI)
    fix p q assume pq: "p \<in> set (lastFrom ixs 0)" "q \<in> set (lastFrom ixs 0)"
      and h: "hash (ixs ! p) = hash (ixs ! q)"
    then have l: "isLast ixs p" "isLast ixs q" "p < length ixs" "q < length ixs"
      by (simp_all add: lastFrom_def)
    show "p = q"
    proof (rule ccontr)
      assume "p \<noteq> q"
      then consider "p < q" | "q < p" by arith
      then show False
      proof cases
        case 1
        with l have "q \<in> set [Suc p..<length ixs]" by simp
        with l(1) h show False unfolding isLast_def by force
      next
        case 2
        with l have "p \<in> set [Suc q..<length ixs]" by simp
        with l(2) h show False unfolding isLast_def by force
      qed
    qed
  qed
  moreover have "distinct (lastFrom ixs 0)" by (simp add: lastFrom_def)
  ultimately have "distinct (map (\<lambda>p. hash (ixs ! p)) (lastFrom ixs 0))"
    by (simp add: distinct_map)
  then show ?thesis by (simp add: lastOccurrences_alt comp_def)
qed

text \<open>
  Claim C1. Whatever order the \<open>range\<close> over the map takes, \<open>uniq\<close> returns without
  panic and leaves in \<open>pendingWrites\<close> exactly the records at the last occurrence of
  each hash in \<open>b.index\<close>, in the order of those occurrences: no hash occurs twice, and
  every hash of the index occurs.
\<close>

theorem uniq_last_occurrences:
  assumes "\<forall>es. mset (rng es) = mset es"
  shows "\<exists>b'. uniq rng b = Return b'
           \<and> pendingWrites b' = lastOccurrences (index b)
           \<and> distinct (map hash (pendingWrites b'))
           \<and> hash ` set (pendingWrites b') = hash ` set (index b)"
proof -
  let ?ps = "rev (lastFrom (index b) 0)"
  let ?us = "uniq_scan (index b) (length (index b)) [] 0"
  have us: "?us = enc (index b) ?ps" by (rule uniq_scan_result)
  have perm: "mset (rng ?us) = mset (enc (index b) ?ps)" using assms us by simp
  have ps: "set ?ps \<subseteq> {..<length (index b)}" by (auto simp: lastFrom_def)
  have fill: "uniq_fill (index b) (length ?us) (rng ?us) (keys b, replicate (length ?us) zeroIndex)
      = Return (keys b @ map fst (rng ?us), lastOccurrences (index b))"
    using uniq_fill_enc [OF perm ps, of "keys b" zeroIndex] by (simp add: us lastOccurrences_alt)
  have hs: "hash ` set (lastOccurrences (index b)) = hash ` set (index b)"
  proof
    show "hash ` set (lastOccurrences (index b)) \<subseteq> hash ` set (index b)"
      by (auto simp: lastOccurrences_alt lastFrom_def)
  next
    show "hash ` set (index b) \<subseteq> hash ` set (lastOccurrences (index b))"
    proof
      fix h assume "h \<in> hash ` set (index b)"
      then obtain q where q: "q < length (index b)" "h = hash (index b ! q)"
        by (auto simp: in_set_conv_nth)
      from hash_has_last [of 0 q "index b"] q obtain p where
        "p \<in> set (lastFrom (index b) 0)" "hash (index b ! p) = h" by auto
      then show "h \<in> hash ` set (lastOccurrences (index b))"
        by (force simp: lastOccurrences_alt)
    qed
  qed
  show ?thesis
    using fill hs distinct_hash_lastOccurrences [of "index b"]
    by (simp add: uniq_def Let_def)
qed

theorem uniq_last_occurrences_witness:
  "(\<forall>es :: (32 word \<times> indices) list. mset (rev es) = mset es)
   \<and> (\<exists>b'. uniq rev
          \<lparr>managed = False, grouped = False, order = 0, seq = 0, data = [], dataCap = 0,
            index = [zeroIndex\<lparr>hash := 1, kvOffset := 0\<rparr>, zeroIndex\<lparr>hash := 2, kvOffset := 1\<rparr>,
                     zeroIndex\<lparr>hash := 1, kvOffset := 2\<rparr>],
            pendingWrites = [], firstKeyHash = 0, keys = [], mem = (None :: unit memdb option),
            internalLen = 0\<rparr> = Return b'
        \<and> pendingWrites b' =
            [zeroIndex\<lparr>hash := 2, kvOffset := 1\<rparr>, zeroIndex\<lparr>hash := 1, kvOffset := 2\<rparr>])"
proof -
  have r: "\<forall>es :: (32 word \<times> indices) list. mset (rev es) = mset es" by simp
  have l: "lastOccurrences [zeroIndex\<lparr>hash := 1, kvOffset := 0\<rparr>, zeroIndex\<lparr>hash := 2, kvOffset := 1\<rparr>,
                     zeroIndex\<lparr>hash := 1, kvOffset := 2\<rparr>]
           = [zeroIndex\<lparr>hash := 2, kvOffset := 1\<rparr>, zeroIndex\<lparr>hash := 1, kvOffset := 2\<rparr>]"
    by (simp add: lastOccurrences_def zeroIndex_def upt_rec)
  from uniq_last_occurrences [OF r, of
      "\<lparr>managed = False, grouped = False, order = 0, seq = 0, data = [], dataCap = 0,
            index = [zeroIndex\<lparr>hash := 1, kvOffset := 0\<rparr>, zeroIndex\<lparr>hash := 2, kvOffset := 1\<rparr>,
                     zeroIndex\<lparr>hash := 1, kvOffset := 2\<rparr>],
            pendingWrites = [], firstKeyHash = 0, keys = [], mem = (None :: unit memdb option),
            internalLen = 0\<rparr>"] l r
  show ?thesis by auto
qed

section \<open>Properties of Put, PutWithTTL and Delete\<close>

lemma grow_cap: "length (data (grow n b)) + n \<le> dataCap (grow n b)"
  by (simp add: grow_def Let_def)

lemma grow_fields:
  "data (grow n b) = data b" "index (grow n b) = index b" "internalLen (grow n b) = internalLen b"
  "mem (grow n b) = mem b"
  by (simp_all add: grow_def Let_def)

lemma length_exposed: "length (exposed n stale) = n"
  by (simp add: exposed_def)

lemma copy_bytes_fits: "length src \<le> length dst \<Longrightarrow> copy_bytes dst src = src @ drop (length src) dst"
  by (simp add: copy_bytes_def)

lemma appendRec_result:
  assumes "mem b = Some m"
  shows "\<exists>b'. appendRec hashf stale dFlag expAt key val b = Return b'
     \<and> data b' = data b @ [if dFlag then 1 else 0] @ key @ (if dFlag then [] else val)
     \<and> index b' = index b @
          [\<lparr>delFlag = dFlag, hash = hashf m key, keySize = of_nat (length key),
            valueSize = (if dFlag then 0 else of_nat (length val)), expiresAt = expAt,
            kvOffset = int (length (data b)) + 1\<rparr>]
     \<and> internalLen b' = internalLen b
          + (ucast (of_nat (length key) :: 16 word)
             + (if dFlag then 0 else of_nat (length val)) + 8)"
proof -
  define n where "n = 1 + length key + (if dFlag then 0 else length val)"
  have cap: "\<not> dataCap (grow n b) < length (data b) + n"
    using grow_cap [of n b] by (simp add: grow_fields)
  have gm: "mem (grow n b) = Some m" using assms by (simp add: grow_fields)
  obtain x rest where fill1: "exposed n stale = x # rest"
    using length_exposed [of n stale] by (cases "exposed n stale") (simp_all add: n_def)
  have lrest: "Suc (length rest) = n"
    using length_exposed [of n stale] by (simp add: fill1)
  show ?thesis
  proof (cases dFlag)
    case True
    with lrest have lk: "length rest = length key" by (simp add: n_def)
    have c: "copy_bytes rest key = key" using lk by (simp add: copy_bytes_def)
    show ?thesis
      unfolding appendRec_def Let_def n_def [symmetric]
      using cap True lk gm
      by (simp add: grow_fields fill1 c zeroIndex_def)
  next
    case False
    with lrest have lk: "length rest = length key + length val" by (simp add: n_def)
    have c: "copy_bytes rest key = key @ drop (length key) rest"
      using lk by (simp add: copy_bytes_fits)
    have c2: "copy_bytes (drop (length key) rest) val = val"
      using lk by (simp add: copy_bytes_def)
    show ?thesis
      unfolding appendRec_def Let_def n_def [symmetric]
      using cap False lk gm
      by (simp add: grow_fields fill1 c c2 zeroIndex_def)
  qed
qed

lemma appendRec_nil: "mem b = None \<Longrightarrow> \<exists>msg. appendRec hashf stale dFlag expAt key val b = Panic msg"
  by (simp add: appendRec_def Let_def grow_fields)

text \<open>
  Claim C9. On a batch whose memdb is set (an initialised batch that has not been
  aborted), \<open>Put\<close>, \<open>PutWithTTL\<close> and \<open>Delete\<close> return for every key and value, without
  a panic and with no validation. Each appends one record to the index, adds
  \<open>keySize + valueSize + 8\<close> to \<open>internalLen\<close> (in \<open>uint32\<close>, with \<open>keySize\<close> the \<open>uint16\<close>
  and \<open>valueSize\<close> the \<open>uint32\<close> of the record, 0 for a delete), and appends to the data
  buffer the flag byte, the key and, for a put, the value.
\<close>

theorem put_delete_append:
  assumes "mem b = Some m"
  shows "(\<exists>b'. PutWithTTL hashf stale later key val ttl b = Return b'
      \<and> data b' = data b @ [0] @ key @ val
      \<and> index b' = index b @
           [\<lparr>delFlag = False, hash = hashf m key, keySize = of_nat (length key),
             valueSize = of_nat (length val),
             expiresAt = (if ttl \<noteq> 0 then ucast (later ttl) else 0),
             kvOffset = int (length (data b)) + 1\<rparr>]
      \<and> internalLen b' = internalLen b
           + (ucast (of_nat (length key) :: 16 word) + of_nat (length val) + 8))
   \<and> Put hashf stale later key val b = PutWithTTL hashf stale later key val 0 b
   \<and> (\<exists>b'. Delete hashf stale key b = Return b'
      \<and> data b' = data b @ [1] @ key
      \<and> index b' = index b @
           [\<lparr>delFlag = True, hash = hashf m key, keySize = of_nat (length key),
             valueSize = 0, expiresAt = 0, kvOffset = int (length (data b)) + 1\<rparr>]
      \<and> internalLen b' = internalLen b + (ucast (of_nat (length key) :: 16 word) + 0 + 8))"
proof -
  have p: "\<exists>b'. PutWithTTL hashf stale later key val ttl b = Return b'
      \<and> data b' = data b @ [0] @ key @ val
      \<and> index b' = index b @
           [\<lparr>delFlag = False, hash = hashf m key, keySize = of_nat (length key),
             valueSize = of_nat (length val),
             expiresAt = (if ttl \<noteq> 0 then ucast (later ttl) else 0),
             kvOffset = int (length (data b)) + 1\<rparr>]
      \<and> internalLen b' = internalLen b
           + (ucast (of_nat (length key) :: 16 word) + of_nat (length val) + 8)"
    using appendRec_result [OF assms, of hashf stale False
        "if ttl \<noteq> 0 then ucast (later ttl) else 0" key val]
    by (simp add: PutWithTTL_def Let_def)
  have d: "\<exists>b'. Delete hashf stale key b = Return b'
      \<and> data b' = data b @ [1] @ key
      \<and> index b' = index b @
           [\<lparr>delFlag = True, hash = hashf m key, keySize = of_nat (length key),
             valueSize = 0, expiresAt = 0, kvOffset = int (length (data b)) + 1\<rparr>]
      \<and> internalLen b' = internalLen b + (ucast (of_nat (length key) :: 16 word) + 0 + 8)"
    using appendRec_result [OF assms, of hashf stale True 0 key "[]"]
    by (simp add: Delete_def)
  have q: "Put hashf stale later key val b = PutWithTTL hashf stale later key val 0 b"
    by (simp add: Put_def)
  from p q d show ?thesis by blast
qed

theorem put_delete_append_witness:
  "mem exBatch = Some exMem
   \<and> (\<exists>b'. PutWithTTL (\<lambda>m k. 7) [] (\<lambda>t. 100) [1, 2] [3] 0 exBatch = Return b'
         \<and> data b' = [0, 1, 2, 3] \<and> internalLen b' = 11)
   \<and> (\<exists>b'. Delete (\<lambda>m k. 7) [] [1, 2] exBatch = Return b'
         \<and> data b' = [1, 1, 2] \<and> internalLen b' = 10)"
proof -
  have a: "mem exBatch = Some exMem" by (simp add: exBatch_def)
  have d: "data exBatch = []" "internalLen exBatch = 0" by (simp_all add: exBatch_def)
  from put_delete_append [OF a, of "\<lambda>m k. 7" "[]" "\<lambda>t. 100" "[1, 2]" "[3]" 0] a d
  show ?thesis by auto
qed

section \<open>Properties of mput\<close>

lemma inBatch_iff: "inBatch h ks \<longleftrightarrow> h \<in> set ks"
  by (induction ks) auto

lemma conflictIn_iff: "conflictIn h ab \<longleftrightarrow> (\<exists>(s, fp) \<in> set ab. h \<in> set fp)"
  by (induction ab rule: conflictIn.induct) (auto simp: inBatch_iff)

lemma mput_conflict:
  assumes "key \<noteq> []" "length key \<le> MaxKeyLength ops" "length val \<le> MaxValueLength ops"
    and "mem b = Some m" and "conflictIn h (activeBatches m)"
  shows "mput ops dFlag h expAt key val b = Return (Some ErrWriteConflict, b)"
  using assms by (simp add: mput_def hasWriteConflict_def)

lemma mput_no_conflict:
  assumes "key \<noteq> []" "length key \<le> MaxKeyLength ops" "length val \<le> MaxValueLength ops"
    and "mem b = Some m" and "\<not> conflictIn h (activeBatches m)"
    and "\<forall>m' h' k' v' e'. fst (mem_put ops m' h' k' v' e') \<noteq> Some ErrWriteConflict"
    and "\<forall>m'. fst (mem_split ops m') \<noteq> Some ErrWriteConflict"
  shows "mput ops dFlag h expAt key val b \<noteq> Return (Some ErrWriteConflict, b')"
proof (cases "makeInternalKey (ensureBuffer ops) [] key (seq b + 1) dFlag expAt")
  case (Panic msg)
  with assms(1-5) show ?thesis by (simp add: mput_def hasWriteConflict_def)
next
  case (Return k)
  obtain e1 m1 where p: "mem_put ops m h k val expAt = (e1, m1)" by (cases "mem_put ops m h k val expAt")
  from assms(6) p have e1: "e1 \<noteq> Some ErrWriteConflict" by (metis fst_conv)
  show ?thesis
  proof (cases e1)
    case (Some e)
    with e1 p Return assms(1-5) show ?thesis by (simp add: mput_def hasWriteConflict_def)
  next
    case None
    obtain e2 m2 where s: "(if mem_overloaded ops m1 then mem_split ops m1 else (None, m1)) = (e2, m2)"
      by (cases "if mem_overloaded ops m1 then mem_split ops m1 else (None, m1)")
    from assms(7) s have e2: "e2 \<noteq> Some ErrWriteConflict"
      by (metis fst_conv option.distinct(1))
    from None p Return assms(1-5) s e2 show ?thesis
      by (cases e2) (simp_all add: mput_def hasWriteConflict_def)
  qed
qed

text \<open>
  Claim C2. For a key and value that pass validation, on a batch whose memdb is set,
  \<open>mput\<close> returns \<open>errWriteConflict\<close> exactly when the hash occurs in a fingerprint list of
  \<open>b.mem.activeBatches\<close>, and then the batch and its memdb are returned as they were:
  nothing has been inserted. The memdb's \<open>put\<close> and \<open>split\<close> are taken not to return
  \<open>errWriteConflict\<close> themselves.
\<close>

theorem mput_conflict_iff:
  assumes "key \<noteq> []" "length key \<le> MaxKeyLength ops" "length val \<le> MaxValueLength ops"
    and "mem b = Some m"
    and "\<forall>m' h' k' v' e'. fst (mem_put ops m' h' k' v' e') \<noteq> Some ErrWriteConflict"
    and "\<forall>m'. fst (mem_split ops m') \<noteq> Some ErrWriteConflict"
  shows "((\<exists>b'. mput ops dFlag h expAt key val b = Return (Some ErrWriteConflict, b'))
            \<longleftrightarrow> (\<exists>(s, fp) \<in> set (activeBatches m). h \<in> set fp))
       \<and> ((\<exists>(s, fp) \<in> set (activeBatches m). h \<in> set fp)
            \<longrightarrow> mput ops dFlag h expAt key val b = Return (Some ErrWriteConflict, b))"
proof (cases "conflictIn h (activeBatches m)")
  case True
  with mput_conflict [OF assms(1-4) True] show ?thesis by (simp add: conflictIn_iff)
next
  case False
  with mput_no_conflict [OF assms(1-4) False assms(5,6)] show ?thesis
    by (simp add: conflictIn_iff)
qed

theorem mput_conflict_iff_witness:
  "[1 :: byte] \<noteq> [] \<and> length [1 :: byte] \<le> MaxKeyLength exMemops
   \<and> length [2 :: byte] \<le> MaxValueLength exMemops \<and> mem exBatch = Some exMem
   \<and> (\<exists>(s, fp) \<in> set (activeBatches exMem). 9 \<in> set fp)
   \<and> mput exMemops False 9 0 [1] [2] exBatch = Return (Some ErrWriteConflict, exBatch)"
proof -
  have a: "[1 :: byte] \<noteq> []" "length [1 :: byte] \<le> MaxKeyLength exMemops"
      "length [2 :: byte] \<le> MaxValueLength exMemops" "mem exBatch = Some exMem"
    by (simp_all add: exMemops_def exBatch_def)
  have p: "\<forall>m' h' k' v' e'. fst (mem_put exMemops m' h' k' v' e') \<noteq> Some ErrWriteConflict"
    by (simp add: exMemops_def)
  have s: "\<forall>m'. fst (mem_split exMemops m') \<noteq> Some ErrWriteConflict"
    by (simp add: exMemops_def)
  have c: "\<exists>(s, fp) \<in> set (activeBatches exMem). 9 \<in> set fp" by (simp add: exMem_def)
  from mput_conflict_iff [OF a p s, of False 9 0] c
  have "mput exMemops False 9 0 [1] [2] exBatch = Return (Some ErrWriteConflict, exBatch)"
    by blast
  with a c show ?thesis by blast
qed

section \<open>Properties of Commit\<close>







lemma scanOk_same:
  "visited st' = visited st \<Longrightarrow> applied st' = applied st \<Longrightarrow> sdb st' = sdb st \<Longrightarrow>
     scanOk ops bseq blen st e st'"
  by (simp add: scanOk_def)










lemma commitBuckets_break:
  assumes "forEachBucket (chainAt m i)
             (\<lambda>memb. commitSlots ops bseq blen m memb (entries memb)) st
           = (Some ErrBatchSeqComplete, st1)"
  shows "commitBuckets ops bseq blen m i (Suc n) st = (Some ErrBatchSeqComplete, st1)"
  using assms by simp















text \<open>
  Claim C10, as the code has it. On a batch that is not managed, \<open>Commit\<close> returns nil
  and leaves the batch with its memdb (and so \<open>activeBatches\<close>) and the database (index,
  data and counters) as they were, and applies nothing, when \<open>b.mem\<close> is nil, when the
  memdb's reference count is 0, or when \<open>pendingWrites\<close> is empty.
\<close>

theorem Commit_noop:
  assumes "\<not> managed b"
    and "mem b = None \<or> (\<exists>m. mem b = Some m \<and> refcount m = 0) \<or> pendingWrites b = []"
  shows "Commit ops b db = Return (None, b, db, [])"
proof (cases "mem b")
  case None
  with assms(1) show ?thesis by (simp add: Commit_def)
next
  case (Some m)
  with assms show ?thesis by (auto simp: Commit_def commit_def)
qed

theorem Commit_noop_witness:
  "\<not> managed (exBatch\<lparr>pendingWrites := []\<rparr>)
   \<and> pendingWrites (exBatch\<lparr>pendingWrites := []\<rparr>) = []
   \<and> Commit exCommitops (exBatch\<lparr>pendingWrites := []\<rparr>) exDB
       = Return (None, exBatch\<lparr>pendingWrites := []\<rparr>, exDB, [])"
proof -
  have a: "\<not> managed (exBatch\<lparr>pendingWrites := []\<rparr>)" by (simp add: exBatch_def)
  have b: "mem (exBatch\<lparr>pendingWrites := []\<rparr>) = None
           \<or> (\<exists>m. mem (exBatch\<lparr>pendingWrites := []\<rparr>) = Some m \<and> refcount m = 0)
           \<or> pendingWrites (exBatch\<lparr>pendingWrites := []\<rparr>) = []"
    by simp
  from Commit_noop [OF a b, of exCommitops exDB] a show ?thesis by simp
qed

text \<open>
  Claim C10 as stated fails on a managed batch: with \<open>b.mem\<close> nil, \<open>Commit\<close> does not
  return nil, the assertion panics.
\<close>

theorem Commit_noop_counterexample:
  "mem (exBatch\<lparr>managed := True, mem := None\<rparr>) = None
   \<and> Commit exCommitops (exBatch\<lparr>managed := True, mem := None\<rparr>) exDB
       = Panic ''assertion failed: managed tx commit not allowed''"
  by (simp add: Commit_def)

section \<open>Properties of the write-ahead log\<close>

lemma put_loop_length:
  "put_loop lg ls i n = Return (Some ls') \<Longrightarrow> length ls' = length ls"
  by (induction n arbitrary: i) (auto split: if_splits)

lemma put_count:
  assumes "put lg w = Return w'" and "count_wal w = int (length (logs w))"
  shows "count_wal w' = int (length (logs w'))"
proof (cases "put_loop lg (logs w) 0 (nat (count_wal w))")
  case (Panic msg)
  with assms show ?thesis by (simp add: put_def)
next
  case (Return r)
  show ?thesis
  proof (cases r)
    case None
    with Return assms show ?thesis by (auto simp: put_def)
  next
    case (Some ls)
    with Return have "length ls = length (logs w)" by (simp add: put_loop_length)
    with Some Return assms show ?thesis by (auto simp: put_def)
  qed
qed

lemma logMerge_logs:
  "logs (snd (logMerge ops i w)) = logs w" "count_wal (snd (logMerge ops i w)) = count_wal w"
  "fb (snd (logMerge ops i w)) = fold (mergeIfApplied ops) (drop i (logs w)) (fb w)"
  "fst (logMerge ops i w) = file_Sync ops (snd (logMerge ops i w))"
  by (simp_all add: logMerge_def Let_def)

lemma signal_loop_count:
  "signal_loop ops u i n w = (e, w') \<Longrightarrow>
     length (logs w') = length (logs w) \<and> count_wal w' = count_wal w"
proof (induction n arbitrary: i w)
  case 0
  then show ?case by auto
next
  case (Suc n)
  define w1 where "w1 = w\<lparr>logs := (logs w)[i := (logs w ! i)\<lparr>log_status := logStatusApplied\<rparr>]\<rparr>"
  define w2 where "w2 = snd (logMerge ops i w1)"
  have w2: "length (logs w2) = length (logs w)" "count_wal w2 = count_wal w"
    by (simp_all add: w2_def logMerge_logs w1_def)
  have lm: "logMerge ops i w1 = (fst (logMerge ops i w1), w2)" by (simp add: w2_def)
  show ?case
  proof (cases "log_status (logs w ! i) = logStatusWritten \<and> upperSeq (logs w ! i) \<le> u")
    case False
    with Suc.prems have "signal_loop ops u (Suc i) n w = (e, w')" by auto
    then show ?thesis by (rule Suc.IH)
  next
    case True
    show ?thesis
    proof (cases "fst (logMerge ops i w1)")
      case None
      with True Suc.prems lm have "signal_loop ops u (Suc i) n w2 = (e, w')"
        by (simp add: Let_def w1_def [symmetric])
      then have "length (logs w') = length (logs w2) \<and> count_wal w' = count_wal w2"
        by (rule Suc.IH)
      with w2 show ?thesis by simp
    next
      case (Some x)
      with True Suc.prems lm have "w' = w2"
        by (simp add: Let_def w1_def [symmetric])
      with w2 show ?thesis by simp
    qed
  qed
qed

lemma wal_reach_count: "wal_reach ops w \<Longrightarrow> count_wal w = int (length (logs w))"
proof (induction rule: wal_reach.induct)
  case (reach_new f)
  show ?case by simp
next
  case (reach_recover w lg)
  then show ?case by simp
next
  case (reach_put w lg w')
  then show ?case by (simp add: put_count)
next
  case (reach_signal w u e w')
  from reach_signal(2) have l: "length (sortSlice ops (logs w)) = length (logs w)"
    by (rule mset_eq_length)
  from reach_signal(3) signal_loop_count [of ops u 0 "length (sortSlice ops (logs w))"
      "w\<lparr>logs := sortSlice ops (logs w)\<rparr>" e w']
  have "length (logs w') = length (sortSlice ops (logs w)) \<and> count_wal w' = count_wal w"
    by (simp add: SignalLogApplied_def Let_def)
  with l reach_signal(4) show ?case by simp
next
  case (reach_fb w f)
  then show ?case by simp
qed

lemma scan_loop_result:
  "i + n = length ls \<Longrightarrow>
     scan_loop ls i n (a, b) =
       Return (a @ map log_seq (filter isWritten (drop i ls)),
               b @ map upperSeq (filter isWritten (drop i ls)))"
proof (induction n arbitrary: i a b)
  case 0
  then show ?case by simp
next
  case (Suc n)
  then have i: "i < length ls" by simp
  then have d: "drop i ls = ls ! i # drop (Suc i) ls" by (simp add: Cons_nth_drop_Suc)
  from Suc.prems have s: "Suc i + n = length ls" by simp
  show ?case
    using i by (simp add: d Suc.IH [OF s] isWritten_def)
qed

text \<open>
  Claim C5. In every state of the log that the code of wal.go produces, \<open>Scan\<close> returns,
  without a panic and with a nil error, the \<open>seq\<close> and the \<open>upperSeq\<close> of exactly the
  descriptors whose status is \<open>logStatusWritten\<close>, in the order of the log list; a
  descriptor with any other status contributes nothing.
\<close>

theorem Scan_written:
  assumes "wal_reach ops w"
  shows "Scan w = Return (map log_seq (filter isWritten (logs w)),
                          map upperSeq (filter isWritten (logs w)), None)"
proof -
  from assms have "count_wal w = int (length (logs w))" by (rule wal_reach_count)
  then have "nat (count_wal w) = length (logs w)" by simp
  then show ?thesis
    using scan_loop_result [of 0 "length (logs w)" "logs w" "[]" "[]"]
    by (simp add: Scan_def)
qed

theorem Scan_written_witness:
  "wal_reach exWalops exWAL \<and> Scan exWAL = Return ([5, 1], [6, 2], None)"
proof -
  let ?w0 = "\<lparr>logs = [], count_wal = 0, fb = exFb\<rparr>"
  let ?w1 = "\<lparr>logs = [exLog logStatusWritten 5 48], count_wal = 1, fb = exFb\<rparr>"
  let ?w2 = "\<lparr>logs = [exLog logStatusWritten 5 48, exLog logStatusApplied 3 16],
              count_wal = 2, fb = exFb\<rparr>"
  have r0: "wal_reach exWalops ?w0" by (rule reach_new)
  have s1: "log_status (exLog logStatusWritten 5 48) = logStatusWritten" by (simp add: exLog_def)
  from reach_recover [OF r0 s1] have r1: "wal_reach exWalops ?w1" by simp
  have p2: "put (exLog logStatusApplied 3 16) ?w1 = Return ?w2" by code_simp
  from reach_put [OF r1 p2] have r2: "wal_reach exWalops ?w2" .
  have s3: "log_status (exLog logStatusWritten 1 32) = logStatusWritten" by (simp add: exLog_def)
  from reach_recover [OF r2 s3] have r3: "wal_reach exWalops exWAL" by (simp add: exWAL_def)
  have f: "map log_seq (filter isWritten (logs exWAL)) = [5, 1]"
      "map upperSeq (filter isWritten (logs exWAL)) = [6, 2]"
    by (simp_all add: exWAL_def exLog_def isWritten_def logStatusWritten_def logStatusApplied_def)
  from Scan_written [OF r3] f r3 show ?thesis by simp
qed


lemma status_distinct: "logStatusWritten \<noteq> logStatusApplied"
  by (simp add: logStatusWritten_def logStatusApplied_def)





lemma extent_status [simp]: "extent ops (l\<lparr>log_status := s\<rparr>) = extent ops l"
  by (simp add: extent_def)










end
